theory Spec2Isabelle
  imports Main
begin

section \<open>The stream and observer contract\<close>

text \<open>
  The library of \<^verbatim>\<open>src/index.ts\<close> is push-based: a \<^verbatim>\<open>Stream<T>\<close> is a function
  that takes an \<^verbatim>\<open>Observer<T>\<close> and returns a \<^verbatim>\<open>Subscription\<close>. Everything a stream
  does is a call of one of the three observer methods, so a run of the program is
  described by the sequence of these calls.

  The host is single threaded: a timer callback, a promise reaction or an observer
  method runs to its end before the next one starts. Each operator is therefore
  modelled by the variables of its closure (a record) and one function per callback
  of the source, which takes the state and returns the calls it made and the new state.
  Observer callbacks are taken to return normally, except in \<open>fromPromise\<close>, the only
  place of the source that catches an exception.

  Modelled are \<open>periodic\<close>, \<open>fromPromise\<close>, \<open>scan\<close>, \<open>startWith\<close>, \<open>take\<close>, \<open>merge\<close>,
  \<open>combine\<close> and \<open>flatten\<close>. Of the subscriptions the operators return, those of
  \<open>periodic\<close> and \<open>fromPromise\<close> are modelled; those of the other operators only hand
  the invocation on to their sources and are left out.
\<close>

datatype ('a, 'e) call = Next 'a | Error 'e | Complete

text \<open>
  \<^verbatim>\<open>interface Observer<T> { next(data: T): void; error?(e: any): void; complete?(): void; }\<close>
  Only \<open>next\<close> is mandatory. The record says which optional methods the observer
  object has.
\<close>

record observer =
  has_error :: bool
  has_complete :: bool

text \<open>
  \<open>invoke obs c\<close> is the list of calls the observer receives from
  \<^verbatim>\<open>observer.next(d)\<close>, \<^verbatim>\<open>observer.error?.(e)\<close> and \<^verbatim>\<open>observer.complete?.()\<close>:
  the optional chaining skips the call when the method is absent.
\<close>

fun invoke :: "observer \<Rightarrow> ('a, 'e) call \<Rightarrow> ('a, 'e) call list" where
  "invoke obs (Next d) = [Next d]"
| "invoke obs (Error e) = (if has_error obs then [Error e] else [])"
| "invoke obs Complete = (if has_complete obs then [Complete] else [])"

text \<open>
  A machine is run on the events the host delivers, in order; the calls of the steps
  are concatenated.
\<close>

fun run :: "('ev \<Rightarrow> 's \<Rightarrow> 'c list \<times> 's) \<Rightarrow> 'ev list \<Rightarrow> 's \<Rightarrow> 'c list \<times> 's" where
  "run step [] st = ([], st)"
| "run step (ev # evs) st =
     (case step ev st of (cs, st') \<Rightarrow>
        (case run step evs st' of (cs', st'') \<Rightarrow> (cs @ cs', st'')))"

fun is_Next :: "('a, 'e) call \<Rightarrow> bool" where
  "is_Next (Next d) = True"
| "is_Next c = False"

fun is_Error :: "('a, 'e) call \<Rightarrow> bool" where
  "is_Error (Error e) = True"
| "is_Error c = False"

section \<open>periodic\<close>

text \<open>
  \<^verbatim>\<open>
  function periodic(millis: number): Stream<number> {
      return observer => {
          let i = 0;
          const id = setInterval(() => { observer.next(i++); }, millis);
          return () => { clearInterval(id); observer.complete?.(); };
      }
  }
  \<close>
  The state is the counter \<open>i\<close> and the interval registered under \<open>id\<close>
  (the fields carry the function's name, \<open>i\<close> and \<open>id\<close> being taken in HOL):
  \<open>Some millis\<close> from \<^verbatim>\<open>setInterval\<close> until \<^verbatim>\<open>clearInterval\<close>. The host runs the
  timer callback only while the interval is registered.
\<close>

record periodic_state =
  periodic_i :: nat
  periodic_id :: "nat option"

definition periodic_subscribe :: "nat \<Rightarrow> periodic_state" where
  "periodic_subscribe millis = \<lparr>periodic_i = 0, periodic_id = Some millis\<rparr>"

definition periodic_timer :: "observer \<Rightarrow> periodic_state \<Rightarrow> (nat, 'e) call list \<times> periodic_state" where
  "periodic_timer obs st =
     (case periodic_id st of
        None \<Rightarrow> ([], st)
      | Some millis \<Rightarrow> (invoke obs (Next (periodic_i st)), st\<lparr>periodic_i := periodic_i st + 1\<rparr>))"

definition periodic_unsubscribe :: "observer \<Rightarrow> periodic_state \<Rightarrow> (nat, 'e) call list \<times> periodic_state" where
  "periodic_unsubscribe obs st = (invoke obs Complete, st\<lparr>periodic_id := None\<rparr>)"

datatype periodic_event = Timer | Unsubscribe

fun periodic_step :: "observer \<Rightarrow> periodic_event \<Rightarrow> periodic_state \<Rightarrow> (nat, 'e) call list \<times> periodic_state" where
  "periodic_step obs Timer st = periodic_timer obs st"
| "periodic_step obs Unsubscribe st = periodic_unsubscribe obs st"

definition periodic :: "nat \<Rightarrow> observer \<Rightarrow> periodic_event list \<Rightarrow> (nat, 'e) call list" where
  "periodic millis obs evs = fst (run (periodic_step obs) evs (periodic_subscribe millis))"

section \<open>fromPromise\<close>

text \<open>
  \<^verbatim>\<open>
  function fromPromise<T>(promise: Promise<T>): Stream<T> {
      return observer => {
          promise.then(data => {
              observer.next(data);
              observer.complete?.();
          }).catch(err => {
              observer.error?.(err);
          });
          return () => {};
      };
  }
  \<close>
  A promise settles at most once, fulfilled with a value or rejected with a reason, and
  its reactions run after the subscribe call has returned.
  \<^verbatim>\<open>.catch\<close> is attached to the promise returned by \<^verbatim>\<open>.then\<close>, so it receives the
  rejection of the original promise and also whatever the first reaction throws.
  This is the one place where the source handles exceptions, so here the observer's
  methods \<open>next\<close> and \<open>complete\<close> may throw: \<open>behaviour\<close> says what they do
  (\<open>None\<close>: the method returns).
\<close>

datatype ('a, 'e) settlement = Resolved 'a | Rejected 'e

record ('a, 'e) behaviour =
  next_throws :: "'a \<Rightarrow> 'e option"
  complete_throws :: "'e option"

text \<open>The reaction given to \<^verbatim>\<open>then\<close>: the calls it makes and what it throws, if anything.\<close>

definition fromPromise_then ::
  "observer \<Rightarrow> ('a, 'e) behaviour \<Rightarrow> 'a \<Rightarrow> ('a, 'e) call list \<times> 'e option" where
  "fromPromise_then obs beh data =
     (case next_throws beh data of
        Some err \<Rightarrow> ([Next data], Some err)
      | None \<Rightarrow>
          (if has_complete obs then ([Next data, Complete], complete_throws beh)
           else ([Next data], None)))"

text \<open>The reaction given to \<^verbatim>\<open>catch\<close>.\<close>

definition fromPromise_catch :: "observer \<Rightarrow> 'e \<Rightarrow> ('a, 'e) call list" where
  "fromPromise_catch obs err = invoke obs (Error err)"

definition fromPromise_reactions ::
  "observer \<Rightarrow> ('a, 'e) behaviour \<Rightarrow> ('a, 'e) settlement \<Rightarrow> ('a, 'e) call list" where
  "fromPromise_reactions obs beh s =
     (case s of
        Resolved data \<Rightarrow>
          (case fromPromise_then obs beh data of
             (cs, None) \<Rightarrow> cs
           | (cs, Some err) \<Rightarrow> cs @ fromPromise_catch obs err)
      | Rejected err \<Rightarrow> fromPromise_catch obs err)"

text \<open>
  The state is the promise chain: \<open>True\<close> while the reactions registered at
  subscription have not run. The returned subscription \<^verbatim>\<open>() => {}\<close> has an empty body.
\<close>

record fromPromise_state =
  fromPromise_pending :: bool

definition fromPromise_subscribe :: fromPromise_state where
  "fromPromise_subscribe = \<lparr>fromPromise_pending = True\<rparr>"

definition fromPromise_unsubscribe :: "fromPromise_state \<Rightarrow> ('a, 'e) call list \<times> fromPromise_state" where
  "fromPromise_unsubscribe st = ([], st)"

definition fromPromise_settle ::
  "observer \<Rightarrow> ('a, 'e) behaviour \<Rightarrow> ('a, 'e) settlement \<Rightarrow> fromPromise_state
     \<Rightarrow> ('a, 'e) call list \<times> fromPromise_state" where
  "fromPromise_settle obs beh s st =
     (if fromPromise_pending st
      then (fromPromise_reactions obs beh s, st\<lparr>fromPromise_pending := False\<rparr>)
      else ([], st))"

datatype ('a, 'e) fromPromise_event = Promise_settles "('a, 'e) settlement" | Promise_unsubscribe

fun fromPromise_step ::
  "observer \<Rightarrow> ('a, 'e) behaviour \<Rightarrow> ('a, 'e) fromPromise_event \<Rightarrow> fromPromise_state
     \<Rightarrow> ('a, 'e) call list \<times> fromPromise_state" where
  "fromPromise_step obs beh (Promise_settles s) st = fromPromise_settle obs beh s st"
| "fromPromise_step obs beh Promise_unsubscribe st = fromPromise_unsubscribe st"

definition fromPromise ::
  "observer \<Rightarrow> ('a, 'e) behaviour \<Rightarrow> ('a, 'e) fromPromise_event list \<Rightarrow> ('a, 'e) call list" where
  "fromPromise obs beh evs = fst (run (fromPromise_step obs beh) evs fromPromise_subscribe)"

section \<open>scan\<close>

text \<open>
  \<^verbatim>\<open>
  function scan<T, U>(f: (acc: U, current: T) => U, initialValue: U): Operator<T, U> {
      return source => observer => {
          let current = initialValue;
          observer.next(current);
          return source({
              ...observer,
              next(data: T) {
                  current = f(current, data);
                  observer.next(current);
              }
          });
      };
  }
  \<close>
  The object given to \<open>source\<close> is the observer with \<open>next\<close> replaced: \<open>error\<close> and
  \<open>complete\<close> are the observer's own methods, if it has them. The seed is sent before
  \<open>source\<close> is called, so every call of the source, during \<open>source(...)\<close> or later,
  comes after it and meets the same callbacks; \<open>scan\<close> takes them as one list.
\<close>

record 'u scan_state =
  scan_current :: 'u

definition scan_next ::
  "('u \<Rightarrow> 't \<Rightarrow> 'u) \<Rightarrow> observer \<Rightarrow> 't \<Rightarrow> 'u scan_state \<Rightarrow> ('u, 'e) call list \<times> 'u scan_state" where
  "scan_next f obs data st =
     (let st' = st\<lparr>scan_current := f (scan_current st) data\<rparr>
      in (invoke obs (Next (scan_current st')), st'))"

fun scan_observer ::
  "('u \<Rightarrow> 't \<Rightarrow> 'u) \<Rightarrow> observer \<Rightarrow> ('t, 'e) call \<Rightarrow> 'u scan_state \<Rightarrow> ('u, 'e) call list \<times> 'u scan_state" where
  "scan_observer f obs (Next data) st = scan_next f obs data st"
| "scan_observer f obs (Error e) st = (invoke obs (Error e), st)"
| "scan_observer f obs Complete st = (invoke obs Complete, st)"

definition scan ::
  "('u \<Rightarrow> 't \<Rightarrow> 'u) \<Rightarrow> 'u \<Rightarrow> observer \<Rightarrow> ('t, 'e) call list \<Rightarrow> ('u, 'e) call list" where
  "scan f initialValue obs calls =
     (let st = \<lparr>scan_current = initialValue\<rparr>
      in invoke obs (Next (scan_current st)) @ fst (run (scan_observer f obs) calls st))"

section \<open>Streams handed to an operator\<close>

text \<open>
  \<open>take\<close> and \<open>flatten\<close> store the subscription a stream returns, in a variable that
  is assigned only when the subscribe call has returned. For them it matters which
  calls a stream makes before its subscribe call returns, and what its subscription
  does when invoked. A stream given to these operators is described by both:
  \<^item> \<open>during_subscribe\<close>: the calls it makes on its observer before the subscribe
    call returns, in order;
  \<^item> \<open>completes_on_unsubscribe\<close>: whether its subscription calls \<open>complete\<close> when
    invoked, as the subscriptions of \<open>periodic\<close> and \<open>fromEvent\<close> do, or calls nothing,
    as those of \<open>fromPromise\<close> and \<open>http.get\<close> do. No subscription of the library
    calls \<open>next\<close> or \<open>error\<close>.
  The calls it makes later come from host callbacks and are events of the run.
\<close>

record ('a, 'e) source =
  during_subscribe :: "('a, 'e) call list"
  completes_on_unsubscribe :: bool

text \<open>
  \<open>periodic\<close> as a source: \<^verbatim>\<open>setInterval\<close> only registers the callback, and the
  subscription calls \<open>complete\<close>.
\<close>

definition periodic_source :: "(nat, 'e) source" where
  "periodic_source = \<lparr>during_subscribe = [], completes_on_unsubscribe = True\<rparr>"

text \<open>
  \<open>fromPromise\<close> as a source: the reactions run after the subscribe call, and the
  subscription does nothing.
\<close>

definition fromPromise_source :: "('a, 'e) source" where
  "fromPromise_source = \<lparr>during_subscribe = [], completes_on_unsubscribe = False\<rparr>"

section \<open>startWith\<close>

text \<open>
  \<^verbatim>\<open>
  function startWith<T>(data: T): Operator<T, T> {
      return source => observer => {
          observer.next(data);
          return source(observer);
      };
  }
  \<close>
  The value is sent first, then the source is subscribed with the same observer, and
  the source's subscription is returned.
\<close>

definition startWith :: "'a \<Rightarrow> ('a, 'e) source \<Rightarrow> ('a, 'e) source" where
  "startWith data src = src\<lparr>during_subscribe := Next data # during_subscribe src\<rparr>"

section \<open>take\<close>

text \<open>
  \<^verbatim>\<open>
  function take<T>(n: number): Operator<T, T> {
      return source => observer => {
          let i = 0;
          const unsubscribe = source({
              ...observer,
              next(data: T) {
                  observer.next(data);
                  i++;
                  if(i === n) {
                      unsubscribe();
                  }
              }
          });
          return unsubscribe;
      };
  }
  \<close>
  \<open>unsubscribe\<close> is assigned when \<open>source(...)\<close> has returned. A call of \<open>next\<close> made by
  the source before that reads it unassigned when \<open>i\<close> reaches \<open>n\<close>: the read throws
  (ReferenceError for a \<open>const\<close>; under a compilation to \<open>var\<close> the call of
  \<open>undefined\<close> throws TypeError). The exception leaves \<open>next\<close>, then the source, which
  has no handler, then the subscribe call of \<open>take\<close>.

  The state is \<open>i\<close> and whether \<open>unsubscribe\<close> has been assigned; \<open>n\<close> is a natural
  number (for any other number \<open>i === n\<close> never holds, as for \<open>0\<close>). What \<open>take\<close> does is
  recorded as effects: a call on the downstream observer, or the invocation of the
  source's subscription. A subscription that calls \<open>complete\<close> calls the method of the
  object \<open>take\<close> gave to the source, which is the downstream observer's own.
\<close>

record take_state =
  take_i :: nat
  take_unsubscribe :: bool

datatype ('a, 'e) effect = Downstream "('a, 'e) call" | Unsubscribe_source

datatype 'x outcome = Returned 'x | Thrown 'x

text \<open>
  The effects of invoking the source's subscription: the invocation itself, and the
  \<open>complete\<close> call of a source whose subscription makes one.
\<close>

definition unsubscribe_source :: "observer \<Rightarrow> ('a, 'e) source \<Rightarrow> ('a, 'e) effect list" where
  "unsubscribe_source obs src =
     Unsubscribe_source #
       (if completes_on_unsubscribe src then map Downstream (invoke obs Complete) else [])"

definition take_next ::
  "nat \<Rightarrow> observer \<Rightarrow> ('a, 'e) source \<Rightarrow> 'a \<Rightarrow> take_state
     \<Rightarrow> (('a, 'e) effect list \<times> take_state) outcome" where
  "take_next n obs src data st =
     (let es = map Downstream (invoke obs (Next data));
          st' = st\<lparr>take_i := take_i st + 1\<rparr>
      in if take_i st' = n
         then (if take_unsubscribe st'
               then Returned (es @ unsubscribe_source obs src, st')
               else Thrown (es, st'))
         else Returned (es, st'))"

fun take_observer ::
  "nat \<Rightarrow> observer \<Rightarrow> ('a, 'e) source \<Rightarrow> ('a, 'e) call \<Rightarrow> take_state
     \<Rightarrow> (('a, 'e) effect list \<times> take_state) outcome" where
  "take_observer n obs src (Next data) st = take_next n obs src data st"
| "take_observer n obs src (Error e) st = Returned (map Downstream (invoke obs (Error e)), st)"
| "take_observer n obs src Complete st = Returned (map Downstream (invoke obs Complete), st)"

text \<open>The calls a source makes in one go; an exception ends them.\<close>

fun take_calls ::
  "nat \<Rightarrow> observer \<Rightarrow> ('a, 'e) source \<Rightarrow> ('a, 'e) call list \<Rightarrow> take_state
     \<Rightarrow> (('a, 'e) effect list \<times> take_state) outcome" where
  "take_calls n obs src [] st = Returned ([], st)"
| "take_calls n obs src (c # cs) st =
     (case take_observer n obs src c st of
        Thrown x \<Rightarrow> Thrown x
      | Returned (es, st') \<Rightarrow>
          (case take_calls n obs src cs st' of
             Returned (es', st'') \<Rightarrow> Returned (es @ es', st'')
           | Thrown (es', st'') \<Rightarrow> Thrown (es @ es', st'')))"

text \<open>
  Subscribing: \<open>i = 0\<close>, then \<open>source(...)\<close> runs with \<open>unsubscribe\<close> unassigned, and
  when it returns \<open>unsubscribe\<close> is assigned.
\<close>

definition take_subscribe ::
  "nat \<Rightarrow> observer \<Rightarrow> ('a, 'e) source \<Rightarrow> (('a, 'e) effect list \<times> take_state) outcome" where
  "take_subscribe n obs src =
     (case take_calls n obs src (during_subscribe src) \<lparr>take_i = 0, take_unsubscribe = False\<rparr> of
        Thrown x \<Rightarrow> Thrown x
      | Returned (es, st) \<Rightarrow> Returned (es, st\<lparr>take_unsubscribe := True\<rparr>))"

text \<open>
  The values a source sends after its subscribe call has returned, each from a host
  callback of its own: every one of them reaches \<open>next\<close>, whether the subscription
  has been invoked before or not, and an exception of one callback does not keep the
  host from running the next.
\<close>

fun take_later ::
  "nat \<Rightarrow> observer \<Rightarrow> ('a, 'e) source \<Rightarrow> 'a list \<Rightarrow> take_state \<Rightarrow> ('a, 'e) effect list" where
  "take_later n obs src [] st = []"
| "take_later n obs src (v # vs) st =
     (case take_next n obs src v st of
        Returned (es, st') \<Rightarrow> es @ take_later n obs src vs st'
      | Thrown (es, st') \<Rightarrow> es @ take_later n obs src vs st')"

text \<open>
  \<open>take(n)\<close> subscribed to a source that sends the values \<open>vs\<close> after the subscribe
  call: the effects, and whether the subscribe call threw (then no subscription is
  returned and the later values are not looked at).
\<close>

definition take_op :: "nat \<Rightarrow> observer \<Rightarrow> ('a, 'e) source \<Rightarrow> 'a list \<Rightarrow> ('a, 'e) effect list \<times> bool" where
  "take_op n obs src vs =
     (case take_subscribe n obs src of
        Thrown (es, st) \<Rightarrow> (es, True)
      | Returned (es, st) \<Rightarrow> (es @ take_later n obs src vs st, False))"

section \<open>merge\<close>

text \<open>
  \<^verbatim>\<open>
  function merge<T>(...streams: Stream<T>[]): Stream<T> {
      return observer => {
          let unsubscribes = Array(streams.length);
          let numCompleted = 0;
          for(let i = 0; i < streams.length; i++) {
              unsubscribes[i] = streams[i]({
                  ...observer,
                  complete() {
                      numCompleted++;
                      if(numCompleted === streams.length) {
                          observer.complete?.();
                      }
                  }
              });
          }
          return () => { for(const unsub of unsubscribes) { unsub(); } };
      };
  }
  \<close>
  \<open>numCompleted\<close> is set before the loop and the callbacks do not read \<open>unsubscribes\<close>,
  so a call made while the loop runs meets the same callbacks as a later one. An event
  is a call together with the index of the input that made it; \<open>len\<close> is
  \<open>streams.length\<close>.
\<close>

record merge_state =
  merge_numCompleted :: nat

definition merge_complete :: "nat \<Rightarrow> observer \<Rightarrow> merge_state \<Rightarrow> ('a, 'e) call list \<times> merge_state" where
  "merge_complete len obs st =
     (let st' = st\<lparr>merge_numCompleted := merge_numCompleted st + 1\<rparr>
      in (if merge_numCompleted st' = len then invoke obs Complete else [], st'))"

fun merge_observer ::
  "nat \<Rightarrow> observer \<Rightarrow> ('a, 'e) call \<Rightarrow> merge_state \<Rightarrow> ('a, 'e) call list \<times> merge_state" where
  "merge_observer len obs (Next data) st = (invoke obs (Next data), st)"
| "merge_observer len obs (Error e) st = (invoke obs (Error e), st)"
| "merge_observer len obs Complete st = merge_complete len obs st"

definition merge_step ::
  "nat \<Rightarrow> observer \<Rightarrow> nat \<times> ('a, 'e) call \<Rightarrow> merge_state \<Rightarrow> ('a, 'e) call list \<times> merge_state" where
  "merge_step len obs ev st = merge_observer len obs (snd ev) st"

definition merge :: "nat \<Rightarrow> observer \<Rightarrow> (nat \<times> ('a, 'e) call) list \<Rightarrow> ('a, 'e) call list" where
  "merge len obs evs = fst (run (merge_step len obs) evs \<lparr>merge_numCompleted = 0\<rparr>)"

section \<open>combine\<close>

text \<open>
  \<^verbatim>\<open>
  function combine(...streams: Stream<any>[]): Stream<any[]> {
      return observer => {
          const marker = {};
          let values = Array(streams.length).fill(marker);
          let unsubscribes = Array(streams.length);
          let numData = 0;
          let numCompleted = 0;
          for(let i = 0; i < streams.length; i++) {
              unsubscribes[i] = streams[i]({
                  next(data: any) {
                      if(values[i] === marker) {
                          numData++;
                      }
                      values[i] = data;
                      if(numData === streams.length) {
                          observer.next(values);
                      }
                  },
                  error: observer.error,
                  complete() {
                      numCompleted++;
                      if(numCompleted === streams.length) {
                          observer.complete?.();
                      }
                  }
              });
          }
          return () => { for(const unsub of unsubscribes) { unsub(); } };
      };
  }
  \<close>
  \<open>marker\<close> is an object created by this subscription and compared by identity. It is
  stored nowhere but in \<open>values\<close>, so no input can send it: a slot holds the marker or
  a value of an input, whatever that value is. As in \<open>merge\<close>, an event is a call with
  the index \<open>i\<close> of the input that made it, and \<open>i < streams.length\<close> since \<open>i\<close> is the
  loop variable. The array passed to \<open>observer.next\<close> is \<open>values\<close> itself; the model
  records its content at the call.
\<close>

datatype 'a slot = Marker | Value 'a

record 'a combine_state =
  combine_values :: "'a slot list"
  combine_numData :: nat
  combine_numCompleted :: nat

definition combine_subscribe :: "nat \<Rightarrow> 'a combine_state" where
  "combine_subscribe len =
     \<lparr>combine_values = replicate len Marker, combine_numData = 0, combine_numCompleted = 0\<rparr>"

definition combine_next ::
  "nat \<Rightarrow> observer \<Rightarrow> nat \<Rightarrow> 'a \<Rightarrow> 'a combine_state
     \<Rightarrow> ('a slot list, 'e) call list \<times> 'a combine_state" where
  "combine_next len obs i data st =
     (let st1 = (if combine_values st ! i = Marker
                 then st\<lparr>combine_numData := combine_numData st + 1\<rparr> else st);
          st2 = st1\<lparr>combine_values := (combine_values st1)[i := Value data]\<rparr>
      in (if combine_numData st2 = len then invoke obs (Next (combine_values st2)) else [], st2))"

definition combine_complete ::
  "nat \<Rightarrow> observer \<Rightarrow> 'a combine_state \<Rightarrow> ('a slot list, 'e) call list \<times> 'a combine_state" where
  "combine_complete len obs st =
     (let st' = st\<lparr>combine_numCompleted := combine_numCompleted st + 1\<rparr>
      in (if combine_numCompleted st' = len then invoke obs Complete else [], st'))"

fun combine_observer ::
  "nat \<Rightarrow> observer \<Rightarrow> nat \<Rightarrow> ('a, 'e) call \<Rightarrow> 'a combine_state
     \<Rightarrow> ('a slot list, 'e) call list \<times> 'a combine_state" where
  "combine_observer len obs i (Next data) st = combine_next len obs i data st"
| "combine_observer len obs i (Error e) st = (invoke obs (Error e), st)"
| "combine_observer len obs i Complete st = combine_complete len obs st"

definition combine_step ::
  "nat \<Rightarrow> observer \<Rightarrow> nat \<times> ('a, 'e) call \<Rightarrow> 'a combine_state
     \<Rightarrow> ('a slot list, 'e) call list \<times> 'a combine_state" where
  "combine_step len obs ev st = combine_observer len obs (fst ev) (snd ev) st"

definition combine ::
  "nat \<Rightarrow> observer \<Rightarrow> (nat \<times> ('a, 'e) call) list \<Rightarrow> ('a slot list, 'e) call list" where
  "combine len obs evs = fst (run (combine_step len obs) evs (combine_subscribe len))"

text \<open>
  The specification of \<open>combine\<close> in its own words. \<open>latest i evs\<close> is the last value
  input \<open>i\<close> produced in \<open>evs\<close>, if it produced one. A value arriving as the last event
  of \<open>evs\<close> triggers an emission once every input has produced a value, and the
  emission is the tuple of the latest values of all inputs.
\<close>

definition produced :: "nat \<Rightarrow> (nat \<times> ('a, 'e) call) list \<Rightarrow> 'a list" where
  "produced i evs = concat (map (\<lambda>ev. case ev of (j, Next d) \<Rightarrow> if j = i then [d] else [] | _ \<Rightarrow> []) evs)"

definition latest :: "nat \<Rightarrow> (nat \<times> ('a, 'e) call) list \<Rightarrow> 'a option" where
  "latest i evs = (if produced i evs = [] then None else Some (last (produced i evs)))"

definition snapshot :: "nat \<Rightarrow> (nat \<times> ('a, 'e) call) list \<Rightarrow> 'a list" where
  "snapshot len evs = map (\<lambda>j. the (latest j evs)) [0..<len]"

definition all_produced :: "nat \<Rightarrow> (nat \<times> ('a, 'e) call) list \<Rightarrow> bool" where
  "all_produced len evs = list_all (\<lambda>j. latest j evs \<noteq> None) [0..<len]"

fun emissions_spec :: "nat \<Rightarrow> (nat \<times> ('a, 'e) call) list \<Rightarrow> (nat \<times> ('a, 'e) call) list \<Rightarrow> 'a list list" where
  "emissions_spec len seen [] = []"
| "emissions_spec len seen (ev # evs) =
     (case snd ev of
        Next d \<Rightarrow> (if all_produced len (seen @ [ev]) then [snapshot len (seen @ [ev])] else [])
      | _ \<Rightarrow> [])
     @ emissions_spec len (seen @ [ev]) evs"

definition combine_spec :: "nat \<Rightarrow> (nat \<times> ('a, 'e) call) list \<Rightarrow> 'a list list" where
  "combine_spec len evs = emissions_spec len [] evs"

text \<open>The tuples the downstream observer is given.\<close>

definition tuples :: "('t, 'e) call list \<Rightarrow> 't list" where
  "tuples cs = concat (map (\<lambda>c. case c of Next t \<Rightarrow> [t] | _ \<Rightarrow> []) cs)"

definition well_indexed :: "nat \<Rightarrow> (nat \<times> 'c) list \<Rightarrow> bool" where
  "well_indexed len evs = list_all (\<lambda>ev. fst ev < len) evs"

text \<open>
  The state \<open>combine\<close> is in after the events \<open>evs\<close>, written from the events: a slot
  holds the latest value of its input, or the marker if the input has produced none;
  \<open>numData\<close> counts the inputs that have produced a value and \<open>numCompleted\<close> the
  \<open>complete\<close> calls.
\<close>

definition slot_of :: "'a option \<Rightarrow> 'a slot" where
  "slot_of v = (case v of None \<Rightarrow> Marker | Some d \<Rightarrow> Value d)"

definition combine_after :: "nat \<Rightarrow> (nat \<times> ('a, 'e) call) list \<Rightarrow> 'a combine_state" where
  "combine_after len evs =
     \<lparr>combine_values = map (\<lambda>j. slot_of (latest j evs)) [0..<len],
      combine_numData = length (filter (\<lambda>j. latest j evs \<noteq> None) [0..<len]),
      combine_numCompleted = length (filter (\<lambda>ev. snd ev = Complete) evs)\<rparr>"

section \<open>flatten\<close>

text \<open>
  \<^verbatim>\<open>
  function flatten<T>(outer: Stream<Stream<T>>): Stream<T> {
      return observer => {
          let innerSub: Subscription | undefined;
          let outerCompleted = false;
          const unsubscribe = outer({
              next(stream: Stream<T>) {
                  innerSub?.();
                  innerSub = stream({
                      next(data: T) { observer.next(data); },
                      error: observer.error,
                      complete() {
                          innerSub = undefined;
                          if(outerCompleted) {
                              observer.complete?.();
                          }
                      }
                  });
              },
              error: observer.error,
              complete() { outerCompleted = true; }
          });
          return () => { unsubscribe(); innerSub?.(); };
      };
  }
  \<close>
  The values of the outer stream are streams. \<open>innerSub\<close> holds the subscription of
  an inner stream, identified here with the stream it came from, or nothing. The
  callbacks given to an inner stream are those of \<open>flatten_inner\<close>; an inner stream
  calls them while it is subscribed (\<open>during_subscribe\<close>), later (an event), or from
  its subscription when that calls \<open>complete\<close>.
\<close>

record ('a, 'e) flatten_state =
  flatten_innerSub :: "('a, 'e) source option"
  flatten_outerCompleted :: bool

fun flatten_inner ::
  "observer \<Rightarrow> ('a, 'e) call \<Rightarrow> ('a, 'e) flatten_state \<Rightarrow> ('a, 'e) call list \<times> ('a, 'e) flatten_state" where
  "flatten_inner obs (Next data) st = (invoke obs (Next data), st)"
| "flatten_inner obs (Error e) st = (invoke obs (Error e), st)"
| "flatten_inner obs Complete st =
     (let st' = st\<lparr>flatten_innerSub := None\<rparr>
      in (if flatten_outerCompleted st' then invoke obs Complete else [], st'))"

text \<open>\<^verbatim>\<open>innerSub?.()\<close>\<close>

definition flatten_cancel_inner ::
  "observer \<Rightarrow> ('a, 'e) flatten_state \<Rightarrow> ('a, 'e) call list \<times> ('a, 'e) flatten_state" where
  "flatten_cancel_inner obs st =
     (case flatten_innerSub st of
        None \<Rightarrow> ([], st)
      | Some sub \<Rightarrow> (if completes_on_unsubscribe sub then flatten_inner obs Complete st else ([], st)))"

definition flatten_outer_next ::
  "observer \<Rightarrow> ('a, 'e) source \<Rightarrow> ('a, 'e) flatten_state \<Rightarrow> ('a, 'e) call list \<times> ('a, 'e) flatten_state" where
  "flatten_outer_next obs stream st =
     (case flatten_cancel_inner obs st of (cs, st1) \<Rightarrow>
        (case run (flatten_inner obs) (during_subscribe stream) st1 of (cs', st2) \<Rightarrow>
           (cs @ cs', st2\<lparr>flatten_innerSub := Some stream\<rparr>)))"

fun flatten_outer ::
  "observer \<Rightarrow> (('a, 'e) source, 'e) call \<Rightarrow> ('a, 'e) flatten_state
     \<Rightarrow> ('a, 'e) call list \<times> ('a, 'e) flatten_state" where
  "flatten_outer obs (Next stream) st = flatten_outer_next obs stream st"
| "flatten_outer obs (Error e) st = (invoke obs (Error e), st)"
| "flatten_outer obs Complete st = ([], st\<lparr>flatten_outerCompleted := True\<rparr>)"

datatype ('a, 'e) flatten_event =
  Outer "(('a, 'e) source, 'e) call" | Inner "('a, 'e) call"

fun flatten_step ::
  "observer \<Rightarrow> ('a, 'e) flatten_event \<Rightarrow> ('a, 'e) flatten_state
     \<Rightarrow> ('a, 'e) call list \<times> ('a, 'e) flatten_state" where
  "flatten_step obs (Outer c) st = flatten_outer obs c st"
| "flatten_step obs (Inner c) st = flatten_inner obs c st"

definition flatten :: "observer \<Rightarrow> ('a, 'e) flatten_event list \<Rightarrow> ('a, 'e) call list" where
  "flatten obs evs =
     fst (run (flatten_step obs) evs \<lparr>flatten_innerSub = None, flatten_outerCompleted = False\<rparr>)"

section \<open>Running a machine\<close>

lemma run_fst_Cons:
  "fst (run step (ev # evs) st) = fst (step ev st) @ fst (run step evs (snd (step ev st)))"
  by (simp split: prod.splits)

lemma run_snd_Cons:
  "snd (run step (ev # evs) st) = snd (run step evs (snd (step ev st)))"
  by (simp split: prod.splits)

lemma run_fst_append:
  "fst (run step (xs @ ys) st) = fst (run step xs st) @ fst (run step ys (snd (run step xs st)))"
  by (induction xs arbitrary: st) (simp_all add: run_fst_Cons run_snd_Cons del: run.simps(2))

lemma run_snd_append:
  "snd (run step (xs @ ys) st) = snd (run step ys (snd (run step xs st)))"
  by (induction xs arbitrary: st) (simp_all add: run_snd_Cons del: run.simps(2))

section \<open>Properties of periodic\<close>

lemma periodic_run_cleared:
  "periodic_id st = None \<Longrightarrow> filter is_Next (fst (run (periodic_step obs) evs st)) = []"
proof (induction evs arbitrary: st)
  case Nil
  then show ?case by simp
next
  case (Cons ev evs)
  then show ?case
    by (cases ev)
       (simp_all add: run_fst_Cons periodic_timer_def periodic_unsubscribe_def
          del: run.simps(2))
qed

lemma periodic_run_nexts:
  "periodic_id st = Some m \<Longrightarrow>
   filter is_Next (fst (run (periodic_step obs) evs st)) =
     map Next [periodic_i st ..< periodic_i st + count_list (takeWhile (\<lambda>e. e \<noteq> Unsubscribe) evs) Timer]"
proof (induction evs arbitrary: st)
  case Nil
  then show ?case by simp
next
  case (Cons ev evs)
  show ?case
  proof (cases ev)
    case Timer
    have "periodic_id (st\<lparr>periodic_i := periodic_i st + 1\<rparr>) = Some m"
      using Cons.prems by simp
    from Cons.IH[OF this] Timer Cons.prems show ?thesis
      by (simp add: run_fst_Cons periodic_timer_def upt_conv_Cons del: run.simps(2))
  next
    case Unsubscribe
    have "periodic_id (st\<lparr>periodic_id := None\<rparr>) = None" by simp
    from periodic_run_cleared[OF this, of obs evs] Unsubscribe show ?thesis
      by (simp add: run_fst_Cons periodic_unsubscribe_def del: run.simps(2))
  qed
qed

lemma periodic_run_no_error:
  "filter is_Error (fst (run (periodic_step obs) evs st)) = []"
proof (induction evs arbitrary: st)
  case Nil
  then show ?case by simp
next
  case (Cons ev evs)
  then show ?case
    by (cases ev)
       (simp_all add: run_fst_Cons periodic_timer_def periodic_unsubscribe_def
          del: run.simps(2) split: option.splits)
qed

lemma periodic_run_completes:
  "count_list (fst (run (periodic_step obs) evs st)) Complete =
     (if has_complete obs then count_list evs Unsubscribe else 0)"
proof (induction evs arbitrary: st)
  case Nil
  then show ?case by simp
next
  case (Cons ev evs)
  then show ?case
    by (cases ev)
       (simp_all add: run_fst_Cons periodic_timer_def periodic_unsubscribe_def
          del: run.simps(2) split: option.splits)
qed

lemma count_before_Unsubscribe:
  "count_list (takeWhile (\<lambda>e. e \<noteq> Unsubscribe) evs) Unsubscribe = 0"
  by (induction evs) auto

text \<open>
  C8, as stated, fails: the subscription of \<open>periodic\<close> has no guard, so invoking it a
  second time calls \<open>complete\<close> a second time. After one timer callback and two
  invocations the observer has received \<open>complete\<close> twice.
\<close>

theorem periodic_second_unsubscribe_completes_again:
  "periodic 1000 \<lparr>has_error = True, has_complete = True\<rparr> [Timer, Unsubscribe, Unsubscribe]
     = [Next 0, Complete, Complete :: (nat, string) call]
   \<and> count_list (periodic 1000 \<lparr>has_error = True, has_complete = True\<rparr>
                   [Timer, Unsubscribe, Unsubscribe]) (Complete :: (nat, string) call) \<noteq> 1"
  by (simp add: periodic_def periodic_subscribe_def periodic_timer_def periodic_unsubscribe_def)

text \<open>
  C8, amended: for every interval and every sequence of timer callbacks and invocations
  of the subscription, the values sent are \<open>0, 1, 2, ...\<close> in order, one per timer
  callback before the first invocation of the subscription; \<open>error\<close> is never called;
  \<open>complete\<close> is not called before the subscription is invoked; and each invocation of
  the subscription calls \<open>complete\<close> within that invocation, so the number of
  \<open>complete\<close> calls is the number of invocations (none if the observer has no
  \<open>complete\<close> method).
\<close>

theorem periodic_completes_at_each_unsubscribe:
  "filter is_Next (periodic millis obs evs) =
     map Next [0 ..< count_list (takeWhile (\<lambda>e. e \<noteq> Unsubscribe) evs) Timer]
   \<and> filter is_Error (periodic millis obs evs) = []
   \<and> count_list (periodic millis obs (takeWhile (\<lambda>e. e \<noteq> Unsubscribe) evs)) Complete = 0
   \<and> periodic millis obs (evs @ [Unsubscribe]) = periodic millis obs evs @ invoke obs Complete
   \<and> count_list (periodic millis obs evs) Complete =
       (if has_complete obs then count_list evs Unsubscribe else 0)"
proof -
  have id0: "periodic_id (periodic_subscribe millis) = Some millis"
    and i0: "periodic_i (periodic_subscribe millis) = 0"
    by (simp_all add: periodic_subscribe_def)
  have a: "filter is_Next (periodic millis obs evs) =
     map Next [0 ..< count_list (takeWhile (\<lambda>e. e \<noteq> Unsubscribe) evs) Timer]"
    unfolding periodic_def using periodic_run_nexts[OF id0, of obs evs] by (simp add: i0)
  have b: "filter is_Error (periodic millis obs evs) = []"
    unfolding periodic_def by (rule periodic_run_no_error)
  have c: "count_list (periodic millis obs (takeWhile (\<lambda>e. e \<noteq> Unsubscribe) evs)) Complete = 0"
    unfolding periodic_def by (simp add: periodic_run_completes count_before_Unsubscribe)
  have d: "periodic millis obs (evs @ [Unsubscribe]) = periodic millis obs evs @ invoke obs Complete"
    unfolding periodic_def by (simp add: run_fst_append periodic_unsubscribe_def)
  have e: "count_list (periodic millis obs evs) Complete =
       (if has_complete obs then count_list evs Unsubscribe else 0)"
    unfolding periodic_def by (rule periodic_run_completes)
  from a b c d e show ?thesis by blast
qed

section \<open>Properties of scan\<close>

lemma upt_0_Suc_shift: "[0..<Suc n] = 0 # map Suc [0..<n]"
  by (simp add: upt_conv_Cons map_Suc_upt del: upt_Suc)

lemma scan_run_values:
  "fst (run (scan_observer f obs) (map Next vs) st) =
     map (\<lambda>k. Next (foldl f (scan_current st) (List.take (Suc k) vs))) [0..<length vs]"
proof (induction vs arbitrary: st)
  case Nil
  then show ?case by simp
next
  case (Cons v vs)
  show ?case
    by (simp add: run_fst_Cons scan_next_def Let_def Cons.IH upt_0_Suc_shift comp_def
          del: run.simps(2) upt_Suc)
qed

text \<open>
  C7: on subscription, before any call of the source, \<open>scan\<close> sends the seed; for a
  source that sends the values \<open>vs\<close>, the observer receives one value more than the
  source sent, the \<open>k\<close>-th being \<open>f\<close> folded from the seed over the first \<open>k\<close> values
  of the source; and so \<open>scan((a,b)=>a+b, 0)\<close> over \<open>[1,2,3]\<close> delivers exactly
  \<open>[0,1,3,6]\<close>.
\<close>

theorem scan_emits_seed_then_accumulator:
  "scan f seed obs [] = [Next seed]
   \<and> scan f seed obs (map Next vs) =
       map (\<lambda>k. Next (foldl f seed (List.take k vs))) [0..<Suc (length vs)]
   \<and> scan (+) (0::int) obs (map Next [1, 2, 3 :: int]) = [Next 0, Next 1, Next 3, Next 6]"
proof (intro conjI)
  show "scan f seed obs [] = [Next seed]"
    by (simp add: scan_def)
  show "scan f seed obs (map Next vs) =
       map (\<lambda>k. Next (foldl f seed (List.take k vs))) [0..<Suc (length vs)]"
    by (simp add: scan_def scan_run_values upt_0_Suc_shift comp_def del: upt_Suc)
  show "scan (+) (0::int) obs (map Next [1, 2, 3 :: int]) = [Next 0, Next 1, Next 3, Next 6]"
    by (simp add: scan_def scan_next_def)
qed

section \<open>Properties of fromPromise\<close>

lemma fromPromise_reactions_resolved:
  "next_throws beh v = None \<Longrightarrow> complete_throws beh = None \<Longrightarrow>
   fromPromise_reactions obs beh (Resolved v) = Next v # invoke obs Complete"
  by (simp add: fromPromise_reactions_def fromPromise_then_def)

lemma fromPromise_reactions_rejected:
  "fromPromise_reactions obs beh (Rejected err) = invoke obs (Error err)"
  by (simp add: fromPromise_reactions_def fromPromise_catch_def)

lemma fromPromise_settles_first:
  "fromPromise obs beh [Promise_settles s] = fromPromise_reactions obs beh s"
  by (simp add: fromPromise_def fromPromise_subscribe_def fromPromise_settle_def)

lemma fromPromise_run_unsubscribe:
  "run (fromPromise_step obs beh) (filter (\<lambda>ev. ev \<noteq> Promise_unsubscribe) evs) st =
   run (fromPromise_step obs beh) evs st"
proof (induction evs arbitrary: st)
  case Nil
  then show ?case by simp
next
  case (Cons ev evs)
  then show ?case
    by (cases ev) (simp_all add: fromPromise_unsubscribe_def)
qed

text \<open>
  C9, as stated, fails: \<^verbatim>\<open>.catch\<close> is chained after \<^verbatim>\<open>.then\<close>, so what the observer's
  own \<open>next\<close> or \<open>complete\<close> throws while the promise resolves is delivered to
  \<open>error\<close>. With a throwing \<open>next\<close> the observer receives \<open>next\<close>, then \<open>error\<close> and no
  \<open>complete\<close>; with a throwing \<open>complete\<close> it receives \<open>next\<close>, \<open>complete\<close> and then
  \<open>error\<close>.
\<close>

theorem fromPromise_resolved_then_error:
  "fromPromise \<lparr>has_error = True, has_complete = True\<rparr>
      \<lparr>next_throws = (\<lambda>d. Some ''boom''), complete_throws = None\<rparr>
      [Promise_settles (Resolved (7::int))]
     = [Next 7, Error ''boom'']
   \<and> fromPromise \<lparr>has_error = True, has_complete = True\<rparr>
      \<lparr>next_throws = (\<lambda>d. None), complete_throws = Some ''boom''\<rparr>
      [Promise_settles (Resolved (7::int))]
     = [Next 7, Complete, Error ''boom'']"
  by (simp add: fromPromise_settles_first fromPromise_reactions_def fromPromise_then_def
        fromPromise_catch_def)

text \<open>
  C9, amended: when the promise resolves with \<open>v\<close>, the observer receives \<open>next(v)\<close>
  once; if \<open>next\<close> returned normally it then receives \<open>complete\<close> (if it has that
  method), and nothing else if \<open>complete\<close> returned normally too; what \<open>next\<close> or
  \<open>complete\<close> throws is delivered to \<open>error\<close> (if the observer has that method), after
  the calls already made, and a throwing \<open>next\<close> is not followed by \<open>complete\<close>. When
  the promise rejects with \<open>err\<close>, the observer receives \<open>error(err)\<close> (if it has that
  method) and neither \<open>next\<close> nor \<open>complete\<close>.
\<close>

theorem fromPromise_delivers_settlement:
  "fromPromise obs beh [Promise_settles (Resolved v)] =
     (case next_throws beh v of
        Some thrown \<Rightarrow> Next v # invoke obs (Error thrown)
      | None \<Rightarrow>
          Next v # invoke obs Complete @
            (if has_complete obs
             then (case complete_throws beh of
                     Some thrown \<Rightarrow> invoke obs (Error thrown)
                   | None \<Rightarrow> [])
             else []))
   \<and> (next_throws beh v = None \<and> complete_throws beh = None \<longrightarrow>
        fromPromise obs beh [Promise_settles (Resolved v)] = Next v # invoke obs Complete)
   \<and> fromPromise obs beh [Promise_settles (Rejected err)] = invoke obs (Error err)"
  by (simp add: fromPromise_settles_first fromPromise_reactions_def fromPromise_then_def
        fromPromise_catch_def split: option.splits)

theorem fromPromise_delivers_settlement_witness:
  "fromPromise \<lparr>has_error = True, has_complete = True\<rparr>
      \<lparr>next_throws = (\<lambda>d. None), complete_throws = None\<rparr> [Promise_settles (Resolved (7::int))]
     = [Next 7, Complete :: (int, string) call]
   \<and> fromPromise \<lparr>has_error = True, has_complete = True\<rparr>
      \<lparr>next_throws = (\<lambda>d. None), complete_throws = None\<rparr> [Promise_settles (Rejected ''no'')]
     = [Error ''no'' :: (int, string) call]"
  using fromPromise_delivers_settlement
          [of "\<lparr>has_error = True, has_complete = True\<rparr>"
              "\<lparr>next_throws = (\<lambda>d. None), complete_throws = None\<rparr> :: (int, string) behaviour"
              "7::int" "''no''", simplified]
  by blast

text \<open>
  C10: the subscription returned by \<open>fromPromise\<close> does nothing, so invoking it, any
  number of times and at any moment, leaves the calls the observer receives unchanged.
  In particular, after an invocation made before the promise settles, a resolution
  still delivers \<open>next\<close> and \<open>complete\<close>, and a rejection still delivers \<open>error\<close>.
\<close>

theorem fromPromise_unsubscribe_does_not_suppress:
  "fromPromise obs beh evs = fromPromise obs beh (filter (\<lambda>ev. ev \<noteq> Promise_unsubscribe) evs)
   \<and> fromPromise obs beh [Promise_unsubscribe, Promise_settles s] =
       fromPromise obs beh [Promise_settles s]
   \<and> (next_throws beh v = None \<and> complete_throws beh = None \<longrightarrow>
        fromPromise obs beh [Promise_unsubscribe, Promise_settles (Resolved v)] =
          Next v # invoke obs Complete)
   \<and> fromPromise obs beh [Promise_unsubscribe, Promise_settles (Rejected err)] =
       invoke obs (Error err)"
proof -
  have u: "fromPromise obs beh [Promise_unsubscribe, Promise_settles s] =
        fromPromise_reactions obs beh s" for s
    by (simp add: fromPromise_def fromPromise_subscribe_def fromPromise_settle_def
          fromPromise_unsubscribe_def)
  show ?thesis
    by (simp add: u fromPromise_settles_first fromPromise_reactions_resolved
          fromPromise_reactions_rejected)
       (simp add: fromPromise_def fromPromise_run_unsubscribe)
qed

theorem fromPromise_unsubscribe_does_not_suppress_witness:
  "fromPromise \<lparr>has_error = True, has_complete = True\<rparr>
      \<lparr>next_throws = (\<lambda>d. None), complete_throws = None\<rparr>
      [Promise_unsubscribe, Promise_settles (Resolved (7::int))]
     = [Next 7, Complete :: (int, string) call]"
  using fromPromise_unsubscribe_does_not_suppress
          [of "\<lparr>has_error = True, has_complete = True\<rparr>"
              "\<lparr>next_throws = (\<lambda>d. None), complete_throws = None\<rparr> :: (int, string) behaviour"
              "[]" "Resolved 7" "7::int" "''no''", simplified]
  by blast

section \<open>Properties of merge\<close>

lemma merge_run_complete_count:
  "Complete \<in> set (fst (run (merge_step len obs) evs st)) \<Longrightarrow>
   len \<le> merge_numCompleted st + count_list (map snd evs) Complete"
proof (induction evs arbitrary: st)
  case Nil
  then show ?case by simp
next
  case (Cons ev evs)
  obtain k c where ev: "ev = (k, c)" by (cases ev)
  show ?case
  proof (cases c)
    case (Next d)
    with Cons.prems ev Cons.IH[of st] show ?thesis
      by (simp add: run_fst_Cons merge_step_def del: run.simps(2))
  next
    case (Error e)
    with Cons.prems ev Cons.IH[of st] show ?thesis
      by (simp add: run_fst_Cons merge_step_def del: run.simps(2) split: if_splits)
  next
    case Complete
    with Cons.prems ev Cons.IH[of "st\<lparr>merge_numCompleted := merge_numCompleted st + 1\<rparr>"]
    show ?thesis
      by (auto simp add: run_fst_Cons merge_step_def merge_complete_def Let_def
            simp del: run.simps(2) split: if_splits)
  qed
qed

lemma merge_three_values:
  assumes "evs \<in> shuffles [(0, Next a1), (0, Next a2), (0, Complete)] [(1, Next b), (1, Complete)]"
  shows "merge 2 obs evs = filter is_Next (map snd evs) @ invoke obs Complete"
  using assms
  by (auto simp add: merge_def merge_step_def merge_complete_def)




lemma merge_both_completed:
  assumes sh: "evs \<in> shuffles [(0, Next a1), (0, Next a2), (0, Complete)] [(1, Next b), (1, Complete)]"
    and split: "evs = pre @ post"
    and c: "Complete \<in> set (merge 2 obs pre)"
  shows "(0, Complete) \<in> set pre \<and> (1, Complete) \<in> set pre"
proof -
  from c have "2 \<le> count_list (map snd pre) Complete"
    using merge_run_complete_count[of 2 obs pre "\<lparr>merge_numCompleted = 0\<rparr>"]
    by (simp add: merge_def)
  moreover from sh have "count_list (map snd evs) Complete = 2"
    by auto
  ultimately have "count_list (map snd post) Complete = 0"
    using split by simp
  then have post: "Complete \<notin> snd ` set post"
    by (simp add: count_list_0_iff)
  from sh have "(0, Complete) \<in> set evs" and "(1, Complete) \<in> set evs"
    by auto
  with split post show ?thesis
    by (auto simp: image_iff)
qed

text \<open>
  C3: \<open>merge(A, B)\<close>, where \<open>A\<close> sends two values and completes and \<open>B\<close> sends one
  value and completes, in any interleaving of the two. The observer receives the three
  values in the order of their arrival, then \<open>complete\<close> once (if it has that method)
  and nothing else; and after any part of the run the observer has received
  \<open>complete\<close> only if both \<open>A\<close> and \<open>B\<close> have completed in that part.
\<close>

theorem merge_two_inputs:
  assumes "evs \<in> shuffles [(0, Next a1), (0, Next a2), (0, Complete)] [(1, Next b), (1, Complete)]"
  shows "merge 2 obs evs = filter is_Next (map snd evs) @ invoke obs Complete
       \<and> length (filter is_Next (map snd evs)) = 3
       \<and> (\<forall>pre post. evs = pre @ post \<and> Complete \<in> set (merge 2 obs pre) \<longrightarrow>
             (0, Complete) \<in> set pre \<and> (1, Complete) \<in> set pre)"
proof (intro conjI allI impI)
  show "merge 2 obs evs = filter is_Next (map snd evs) @ invoke obs Complete"
    by (rule merge_three_values[OF assms])
  show "length (filter is_Next (map snd evs)) = 3"
    using assms by auto
  show "(0, Complete) \<in> set pre" if "evs = pre @ post \<and> Complete \<in> set (merge 2 obs pre)" for pre post
    using merge_both_completed[OF assms, of pre post obs] that by simp
  show "(1, Complete) \<in> set pre" if "evs = pre @ post \<and> Complete \<in> set (merge 2 obs pre)" for pre post
    using merge_both_completed[OF assms, of pre post obs] that by simp
qed


theorem merge_two_inputs_witness:
  "merge 2 \<lparr>has_error = True, has_complete = True\<rparr>
     [(0, Next (1::int)), (1, Next 10), (0, Next 2), (1, Complete), (0, Complete)]
     = [Next 1, Next 10, Next 2, Complete :: (int, string) call]
   \<and> Complete \<notin> set (merge 2 \<lparr>has_error = True, has_complete = True\<rparr>
        [(0, Next (1::int)), (1, Next 10), (0, Next 2), (1, Complete :: (int, string) call)])"
proof -
  let ?obs = "\<lparr>has_error = True, has_complete = True\<rparr>"
  let ?pre = "[(0::nat, Next (1::int)), (1, Next 10), (0, Next 2), (1, Complete :: (int, string) call)]"
  let ?evs = "?pre @ [(0, Complete)]"
  have sh: "?evs \<in> shuffles [(0, Next 1), (0, Next 2), (0, Complete)] [(1, Next 10), (1, Complete)]"
    by simp
  have a: "merge 2 ?obs ?evs = [Next 1, Next 10, Next 2, Complete]"
    using merge_two_inputs[OF sh, of ?obs, THEN conjunct1] by simp
  have imp: "?evs = ?pre @ [(0, Complete)] \<and> Complete \<in> set (merge 2 ?obs ?pre)
       \<longrightarrow> (0, Complete) \<in> set ?pre \<and> (1, Complete) \<in> set ?pre"
    using merge_two_inputs[OF sh, of ?obs, THEN conjunct2, THEN conjunct2] by blast
  have n: "(0, Complete) \<notin> set ?pre"
    by simp
  from imp n have b: "Complete \<notin> set (merge 2 ?obs ?pre)"
    by blast
  from a b show ?thesis by simp
qed

section \<open>Properties of take\<close>

lemma take_later_past:
  "n \<le> take_i st \<Longrightarrow> take_later n obs src vs st = map (Downstream \<circ> Next) vs"
proof (induction vs arbitrary: st)
  case Nil
  then show ?case by simp
next
  case (Cons v vs)
  let ?st = "st\<lparr>take_i := take_i st + 1\<rparr>"
  from Cons.prems have "n \<le> take_i ?st" and "take_i st + 1 \<noteq> n"
    by simp_all
  with Cons.IH[of ?st] show ?case
    by (simp add: take_next_def Let_def)
qed

lemma take_later_first_n:
  "take_unsubscribe st \<Longrightarrow> take_i st < n \<Longrightarrow>
   take_later n obs src vs st =
     map (Downstream \<circ> Next) (List.take (n - take_i st) vs) @
     (if n - take_i st \<le> length vs then unsubscribe_source obs src else []) @
     map (Downstream \<circ> Next) (drop (n - take_i st) vs)"
proof (induction vs arbitrary: st)
  case Nil
  then show ?case by simp
next
  case (Cons v vs)
  let ?st = "st\<lparr>take_i := take_i st + 1\<rparr>"
  show ?case
  proof (cases "take_i st + 1 = n")
    case True
    then have d: "n - take_i st = Suc 0" and past: "n \<le> take_i ?st"
      by auto
    from True Cons.prems have
      "take_later n obs src (v # vs) st =
         Downstream (Next v) # unsubscribe_source obs src @ take_later n obs src vs ?st"
      by (simp add: take_next_def Let_def)
    also have "take_later n obs src vs ?st = map (Downstream \<circ> Next) vs"
      by (rule take_later_past[OF past])
    finally show ?thesis
      by (simp add: d)
  next
    case False
    from False Cons.prems have lt: "take_i ?st < n" and un: "take_unsubscribe ?st"
      by simp_all
    have d: "n - take_i st = Suc (n - take_i ?st)"
      using lt by simp
    from False Cons.prems have
      "take_later n obs src (v # vs) st = Downstream (Next v) # take_later n obs src vs ?st"
      by (simp add: take_next_def Let_def)
    also note Cons.IH[OF un lt]
    finally show ?thesis
      by (simp only: d) simp
  qed
qed

lemma take_calls_throws:
  "\<not> take_unsubscribe st \<Longrightarrow> take_i st < n \<Longrightarrow>
   n - take_i st \<le> length (filter is_Next cs) \<Longrightarrow>
   \<exists>es st'. take_calls n obs src cs st = Thrown (es, st')
      \<and> length (filter is_Next (concat (map (\<lambda>e. case e of Downstream c \<Rightarrow> [c] | _ \<Rightarrow> []) es))) = n - take_i st
      \<and> Unsubscribe_source \<notin> set es"
proof (induction cs arbitrary: st)
  case Nil
  then show ?case by simp
next
  case (Cons c cs)
  show ?case
  proof (cases c)
    case (Next d)
    show ?thesis
    proof (cases "take_i st + 1 = n")
      case True
      with Cons.prems Next show ?thesis
        by (auto simp add: take_next_def Let_def)
    next
      case False
      let ?st = "st\<lparr>take_i := take_i st + 1\<rparr>"
      from False Cons.prems Next have p: "\<not> take_unsubscribe ?st" "take_i ?st < n"
        "n - take_i ?st \<le> length (filter is_Next cs)"
        by simp_all
      from Cons.IH[OF p] obtain es st' where
        "take_calls n obs src cs ?st = Thrown (es, st')"
        "length (filter is_Next (concat (map (\<lambda>e. case e of Downstream c \<Rightarrow> [c] | _ \<Rightarrow> []) es))) = n - take_i ?st"
        "Unsubscribe_source \<notin> set es"
        by blast
      with False Next p show ?thesis
        by (simp add: take_next_def Let_def)
    qed
  next
    case (Error e)
    from Cons.prems Error have p: "\<not> take_unsubscribe st" "take_i st < n"
        "n - take_i st \<le> length (filter is_Next cs)"
      by simp_all
    from Cons.IH[OF p] Error show ?thesis
      by auto
  next
    case Complete
    from Cons.prems Complete have p: "\<not> take_unsubscribe st" "take_i st < n"
        "n - take_i st \<le> length (filter is_Next cs)"
      by simp_all
    from Cons.IH[OF p] Complete show ?thesis
      by auto
  qed
qed

lemma take_calls_zero:
  "\<exists>st'. take_calls 0 obs src cs st =
            Returned (map Downstream (concat (map (invoke obs) cs)), st')
         \<and> take_unsubscribe st' = take_unsubscribe st"
proof (induction cs arbitrary: st)
  case Nil
  then show ?case by simp
next
  case (Cons c cs)
  show ?case
  proof (cases c)
    case (Next d)
    from Cons.IH[of "st\<lparr>take_i := take_i st + 1\<rparr>"] Next show ?thesis
      by (auto simp add: take_next_def Let_def)
  next
    case (Error e)
    from Cons.IH[of st] Error show ?thesis by auto
  next
    case Complete
    from Cons.IH[of st] Complete show ?thesis by auto
  qed
qed

lemma take_later_zero:
  "take_later 0 obs src vs st = map (Downstream \<circ> Next) vs"
  by (induction vs arbitrary: st) (simp_all add: take_next_def Let_def)


lemma take_calls_values:
  "\<not> take_unsubscribe st \<Longrightarrow> take_i st + length sync < n \<Longrightarrow>
   take_calls n obs src (map Next sync) st =
     Returned (map (Downstream \<circ> Next) sync, st\<lparr>take_i := take_i st + length sync\<rparr>)"
proof (induction sync arbitrary: st)
  case Nil
  then show ?case by simp
next
  case (Cons v sync)
  let ?st = "st\<lparr>take_i := take_i st + 1\<rparr>"
  from Cons.prems have p: "\<not> take_unsubscribe ?st" "take_i ?st + length sync < n"
    by simp_all
  from Cons.prems have "take_i st + 1 \<noteq> n" by simp
  then show ?case
    using Cons.IH[OF p] by (simp add: take_next_def Let_def)
qed

lemma take_subscribe_values:
  "length sync < n \<Longrightarrow> during_subscribe src = map Next sync \<Longrightarrow>
   take_subscribe n obs src =
     Returned (map (Downstream \<circ> Next) sync, \<lparr>take_i = length sync, take_unsubscribe = True\<rparr>)"
  using take_calls_values[of "\<lparr>take_i = 0, take_unsubscribe = False\<rparr>" sync n obs src]
  by (simp add: take_subscribe_def)

lemma take_op_first_n:
  assumes "during_subscribe src = map Next sync" and "length sync < n"
  shows "take_op n obs src later =
           (map (Downstream \<circ> Next) (List.take n (sync @ later)) @
            (if n \<le> length (sync @ later) then unsubscribe_source obs src else []) @
            map (Downstream \<circ> Next) (drop n (sync @ later)), False)"
proof -
  let ?st = "\<lparr>take_i = length sync, take_unsubscribe = True\<rparr>"
  have "take_unsubscribe ?st" and "take_i ?st < n"
    using assms by simp_all
  from take_later_first_n[OF this, of obs src later] assms show ?thesis
    by (simp add: take_op_def take_subscribe_values) arith
qed

text \<open>
  C4, as stated, fails in two ways. \<open>next\<close> of \<open>take\<close> forwards every value it is
  given and has no test of its own: over a producer whose subscription does not stop
  it (the subscription of \<open>fromPromise\<close> does nothing, so a \<open>merge\<close> of four
  \<open>fromPromise\<close> streams is one), \<open>take(2)\<close> invokes the subscription after the
  second value and still delivers \<open>3\<close> and \<open>4\<close>. And over a producer that sends its
  values before its subscribe call returns, \<open>take(2)\<close> forwards \<open>1\<close> and \<open>2\<close>, throws,
  and never invokes the subscription.
\<close>

theorem take_two_forwards_later_values:
  "take_op 2 \<lparr>has_error = True, has_complete = True\<rparr>
      \<lparr>during_subscribe = [], completes_on_unsubscribe = False\<rparr> [1, 2, 3, 4 :: int]
     = ([Downstream (Next 1), Downstream (Next 2), Unsubscribe_source,
         Downstream (Next 3), Downstream (Next 4 :: (int, string) call)], False)
   \<and> take_op 2 \<lparr>has_error = True, has_complete = True\<rparr>
      \<lparr>during_subscribe = [Next 1, Next 2, Next 3, Next 4], completes_on_unsubscribe = False\<rparr> []
     = ([Downstream (Next 1), Downstream (Next 2 :: (int, string) call)], True)"
  by (simp add: take_op_def take_subscribe_def take_next_def unsubscribe_source_def)

text \<open>
  C4, amended: \<open>take(2)\<close> over a producer of \<open>1, 2, 3, 4\<close> that sends at most the
  first value before its subscribe call returns forwards \<open>1\<close> and \<open>2\<close> in order and then
  invokes the producer's subscription (followed by the \<open>complete\<close> of a producer whose
  subscription calls it), without throwing. \<open>take\<close> does not filter what comes after:
  when the producer stops at the cancellation and so sends \<open>1, 2\<close> only, nothing after
  the second value is delivered; the values a producer sends after the cancellation are
  forwarded, after the invocation of the subscription. In general \<open>take(n)\<close> forwards
  the first \<open>n\<close> values, invokes the subscription right after the \<open>n\<close>-th, and
  forwards whatever the producer sends later, provided fewer than \<open>n\<close> values are sent
  before the subscribe call returns.
\<close>

theorem take_two_then_unsubscribes:
  assumes "during_subscribe src = map Next sync"
  shows "(length sync < 2 \<and> sync @ later = [1, 2 :: int] \<longrightarrow>
           take_op 2 obs src later =
             (Downstream (Next 1) # Downstream (Next 2) # unsubscribe_source obs src, False))
       \<and> (length sync < 2 \<and> sync @ later = [1, 2, 3, 4 :: int] \<longrightarrow>
           take_op 2 obs src later =
             (Downstream (Next 1) # Downstream (Next 2) # unsubscribe_source obs src @
                [Downstream (Next 3), Downstream (Next 4)], False))
       \<and> unsubscribe_source obs src =
           Unsubscribe_source #
             (if completes_on_unsubscribe src then map Downstream (invoke obs Complete) else [])
       \<and> (length sync < n \<longrightarrow>
            take_op n obs src vs =
              (map (Downstream \<circ> Next) (List.take n (sync @ vs)) @
               (if n \<le> length (sync @ vs) then unsubscribe_source obs src else []) @
               map (Downstream \<circ> Next) (drop n (sync @ vs)), False))"
proof (intro conjI impI)
  show "take_op 2 obs src later =
          (Downstream (Next 1) # Downstream (Next 2) # unsubscribe_source obs src, False)"
    if "length sync < 2 \<and> sync @ later = [1, 2 :: int]"
    using take_op_first_n[OF assms, of 2 obs later] that by simp
  show "take_op 2 obs src later =
          (Downstream (Next 1) # Downstream (Next 2) # unsubscribe_source obs src @
             [Downstream (Next 3), Downstream (Next 4)], False)"
    if "length sync < 2 \<and> sync @ later = [1, 2, 3, 4 :: int]"
    using take_op_first_n[OF assms, of 2 obs later] that by simp
  show "unsubscribe_source obs src =
          Unsubscribe_source #
            (if completes_on_unsubscribe src then map Downstream (invoke obs Complete) else [])"
    by (simp add: unsubscribe_source_def)
  show "take_op n obs src vs =
          (map (Downstream \<circ> Next) (List.take n (sync @ vs)) @
           (if n \<le> length (sync @ vs) then unsubscribe_source obs src else []) @
           map (Downstream \<circ> Next) (drop n (sync @ vs)), False)"
    if "length sync < n"
    by (rule take_op_first_n[OF assms that])
qed

theorem take_two_then_unsubscribes_witness:
  "take_op 2 \<lparr>has_error = True, has_complete = True\<rparr>
      \<lparr>during_subscribe = [], completes_on_unsubscribe = True\<rparr> [1, 2 :: int]
     = ([Downstream (Next 1), Downstream (Next 2), Unsubscribe_source,
         Downstream (Complete :: (int, string) call)], False)
   \<and> take_op 2 \<lparr>has_error = True, has_complete = True\<rparr>
      \<lparr>during_subscribe = [Next 1], completes_on_unsubscribe = False\<rparr> [2, 3, 4 :: int]
     = ([Downstream (Next 1), Downstream (Next 2 :: (int, string) call), Unsubscribe_source,
         Downstream (Next 3), Downstream (Next 4)], False)"
proof -
  let ?obs = "\<lparr>has_error = True, has_complete = True\<rparr>"
  let ?a = "\<lparr>during_subscribe = [], completes_on_unsubscribe = True\<rparr> :: (int, string) source"
  let ?b = "\<lparr>during_subscribe = [Next 1], completes_on_unsubscribe = False\<rparr> :: (int, string) source"
  have a: "during_subscribe ?a = map Next []" and b: "during_subscribe ?b = map Next [1]"
    by simp_all
  have "take_op 2 ?obs ?a [1, 2] =
      ([Downstream (Next 1), Downstream (Next 2), Unsubscribe_source, Downstream Complete], False)"
    using take_two_then_unsubscribes[OF a, of "[1, 2]" ?obs, THEN conjunct1]
    by (simp add: unsubscribe_source_def)
  moreover have "take_op 2 ?obs ?b [2, 3, 4] =
      ([Downstream (Next 1), Downstream (Next 2), Unsubscribe_source,
        Downstream (Next 3), Downstream (Next 4)], False)"
    using take_two_then_unsubscribes[OF b, of "[2, 3, 4]" ?obs, THEN conjunct2, THEN conjunct1]
    by (simp add: unsubscribe_source_def)
  ultimately show ?thesis by blast
qed

lemma take_subscribe_throws:
  assumes "0 < n" and "n \<le> length (filter is_Next (during_subscribe src))"
  shows "\<exists>es st. take_subscribe n obs src = Thrown (es, st) \<and> Unsubscribe_source \<notin> set es"
proof -
  let ?st = "\<lparr>take_i = 0, take_unsubscribe = False\<rparr>"
  have "\<not> take_unsubscribe ?st" and "take_i ?st < n"
    and "n - take_i ?st \<le> length (filter is_Next (during_subscribe src))"
    using assms by simp_all
  from take_calls_throws[OF this, of obs src] show ?thesis
    by (auto simp add: take_subscribe_def)
qed

text \<open>
  C5 fails on the code. For every \<open>n \<ge> 1\<close> and every source that sends \<open>n\<close> values
  before its subscribe call returns, subscribing \<open>take(n)\<close> throws: the \<open>n\<close>-th value
  makes \<open>next\<close> read \<open>unsubscribe\<close>, which is not assigned yet, and the source is never
  unsubscribed. So \<open>take(1)\<close> after \<open>startWith(v)\<close>, over any source, forwards \<open>v\<close> and
  throws.
\<close>

theorem take_throws_on_synchronous_source:
  "(0 < n \<and> n \<le> length (filter is_Next (during_subscribe src)) \<longrightarrow>
      (\<exists>es. take_op n obs src vs = (es, True) \<and> Unsubscribe_source \<notin> set es))
   \<and> take_op 1 obs (startWith v src') vs' = ([Downstream (Next v)], True)"
proof (intro conjI impI)
  show "\<exists>es. take_op n obs src vs = (es, True) \<and> Unsubscribe_source \<notin> set es"
    if "0 < n \<and> n \<le> length (filter is_Next (during_subscribe src))"
    using take_subscribe_throws[of n src obs] that
    by (auto simp add: take_op_def)
  show "take_op 1 obs (startWith v src') vs' = ([Downstream (Next v)], True)"
    by (simp add: take_op_def take_subscribe_def startWith_def take_next_def)
qed

theorem take_throws_on_synchronous_source_witness:
  "(\<exists>es. take_op 1 \<lparr>has_error = True, has_complete = True\<rparr>
            (startWith 0 (periodic_source :: (nat, string) source)) [1, 2] = (es, True)
         \<and> Unsubscribe_source \<notin> set es)
   \<and> take_op 1 \<lparr>has_error = True, has_complete = True\<rparr>
            (startWith 0 (periodic_source :: (nat, string) source)) [1, 2]
       = ([Downstream (Next 0)], True)"
proof -
  let ?obs = "\<lparr>has_error = True, has_complete = True\<rparr>"
  let ?src = "startWith 0 (periodic_source :: (nat, string) source)"
  have h: "0 < (1::nat) \<and> 1 \<le> length (filter is_Next (during_subscribe ?src))"
    by (simp add: startWith_def)
  note t = take_throws_on_synchronous_source[of 1 ?src ?obs "[1, 2]" 0 periodic_source "[1, 2]"]
  from t h have a: "\<exists>es. take_op 1 ?obs ?src [1, 2] = (es, True) \<and> Unsubscribe_source \<notin> set es"
    by blast
  from t have b: "take_op 1 ?obs ?src [1, 2] = ([Downstream (Next 0)], True)"
    by blast
  from a b show ?thesis by blast
qed

lemma take_op_zero:
  "take_op 0 obs src vs =
     (map Downstream (concat (map (invoke obs) (during_subscribe src))) @
      map (Downstream \<circ> Next) vs, False)"
  using take_calls_zero[of obs src "during_subscribe src" "\<lparr>take_i = 0, take_unsubscribe = False\<rparr>"]
  by (auto simp add: take_op_def take_subscribe_def take_later_zero)

text \<open>
  C6 fails on the code. With \<open>n = 0\<close> the test \<open>i === n\<close> is made after \<open>i++\<close> and is
  never true: \<open>take(0)\<close> forwards every call of the source, those made during the
  subscription and every later value, and never invokes the source's subscription.
\<close>

theorem take_zero_forwards_everything:
  "take_op 0 obs src vs =
     (map Downstream (concat (map (invoke obs) (during_subscribe src))) @
      map (Downstream \<circ> Next) vs, False)
   \<and> Unsubscribe_source \<notin> set (fst (take_op 0 obs src vs))
   \<and> take_op 0 obs \<lparr>during_subscribe = [], completes_on_unsubscribe = c\<rparr> [1, 2, 3 :: int] =
       ([Downstream (Next 1), Downstream (Next 2), Downstream (Next 3)], False)"
proof (intro conjI)
  show "take_op 0 obs src vs =
     (map Downstream (concat (map (invoke obs) (during_subscribe src))) @
      map (Downstream \<circ> Next) vs, False)"
    by (rule take_op_zero)
  show "Unsubscribe_source \<notin> set (fst (take_op 0 obs src vs))"
    by (auto simp add: take_op_zero)
  show "take_op 0 obs \<lparr>during_subscribe = [], completes_on_unsubscribe = c\<rparr> [1, 2, 3 :: int] =
       ([Downstream (Next 1), Downstream (Next 2), Downstream (Next 3)], False)"
    by (simp add: take_op_zero)
qed

section \<open>Properties of flatten\<close>

lemma flatten_outer_complete_silent:
  "flatten obs (evs @ [Outer Complete]) = flatten obs evs"
  by (simp add: flatten_def run_fst_append)

text \<open>
  C1 fails on the code. The \<open>complete\<close> callback given to the outer stream only sets
  \<open>outerCompleted\<close>: whatever happened before, the completion of the outer stream
  sends nothing downstream. So when the outer stream completes with no inner stream
  active, because it produced none or because the last one has already completed,
  the observer never receives \<open>complete\<close>. The deferred case holds: when the outer
  stream completes while an inner stream is active, \<open>complete\<close> is sent when that inner
  stream completes.
\<close>

theorem flatten_outer_completion_never_completes_downstream:
  "flatten obs (evs @ [Outer Complete]) = flatten obs evs
   \<and> flatten obs [Outer Complete] = []
   \<and> flatten obs [Outer (Next fromPromise_source), Inner (Next v), Inner Complete, Outer Complete]
       = [Next v]
   \<and> flatten obs [Outer (Next fromPromise_source), Outer Complete, Inner (Next v), Inner Complete]
       = Next v # invoke obs Complete"
proof (intro conjI)
  show "flatten obs (evs @ [Outer Complete]) = flatten obs evs"
    by (rule flatten_outer_complete_silent)
  show "flatten obs [Outer Complete] = []"
    by (simp add: flatten_def)
  show "flatten obs [Outer (Next fromPromise_source), Inner (Next v), Inner Complete, Outer Complete]
       = [Next v]"
    by (simp add: flatten_def flatten_outer_next_def flatten_cancel_inner_def fromPromise_source_def)
  show "flatten obs [Outer (Next fromPromise_source), Outer Complete, Inner (Next v), Inner Complete]
       = Next v # invoke obs Complete"
    by (simp add: flatten_def flatten_outer_next_def flatten_cancel_inner_def fromPromise_source_def)
qed

section \<open>Properties of combine\<close>

lemma produced_snoc:
  "produced j (evs @ [(i, c)]) =
     produced j evs @ (case c of Next d \<Rightarrow> if i = j then [d] else [] | _ \<Rightarrow> [])"
  by (cases c) (simp_all add: produced_def)

lemma latest_snoc_Next:
  "latest j (evs @ [(i, Next d)]) = (if j = i then Some d else latest j evs)"
  by (simp add: latest_def produced_snoc)

lemma latest_snoc_Error: "latest j (evs @ [(i, Error e)]) = latest j evs"
  by (simp add: latest_def produced_snoc)

lemma latest_snoc_Complete: "latest j (evs @ [(i, Complete)]) = latest j evs"
  by (simp add: latest_def produced_snoc)

lemma count_with_new:
  assumes "i < len"
  shows "length (filter (\<lambda>j. j = i \<or> P j) [0..<len]) =
         length (filter P [0..<len]) + (if P i then 0 else 1)"
proof -
  have a: "length (filter Q [0..<len]) = card {j. j < len \<and> Q j}" for Q
  proof -
    have "{k. k < len \<and> Q ([0..<len] ! k)} = {j. j < len \<and> Q j}"
      by auto
    then show ?thesis
      by (simp add: length_filter_conv_card)
  qed
  have fin: "finite {j. j < len \<and> P j}" by simp
  show ?thesis
  proof (cases "P i")
    case True
    then have "{j. j < len \<and> (j = i \<or> P j)} = {j. j < len \<and> P j}"
      using assms by auto
    with True show ?thesis by (simp add: a)
  next
    case False
    then have "{j. j < len \<and> (j = i \<or> P j)} = insert i {j. j < len \<and> P j}"
      using assms by auto
    moreover have "i \<notin> {j. j < len \<and> P j}" using False by simp
    ultimately show ?thesis using False fin by (simp add: a)
  qed
qed

lemma all_counted:
  "length (filter P [0..<len]) = len \<longleftrightarrow> list_all P [0..<len]"
proof
  assume "length (filter P [0..<len]) = len"
  then have "length (filter P [0..<len]) = length [0..<len]" by simp
  then have "filter P [0..<len] = [0..<len]"
    by (metis length_filter_less less_irrefl filter_True)
  then show "list_all P [0..<len]"
    by (simp add: list_all_iff filter_id_conv)
next
  assume "list_all P [0..<len]"
  then have "filter P [0..<len] = [0..<len]"
    by (simp add: list_all_iff filter_id_conv)
  then show "length (filter P [0..<len]) = len" by simp
qed


lemma tuples_simps:
  "tuples [] = []"
  "tuples (invoke obs (Next t)) = [t]"
  "tuples (invoke obs (Error e)) = []"
  "tuples (invoke obs Complete) = []"
  "tuples (cs @ cs') = tuples cs @ tuples cs'"
  by (simp_all add: tuples_def)

lemma combine_after_Nil: "combine_after len [] = combine_subscribe len"
  by (simp add: combine_after_def combine_subscribe_def latest_def produced_def slot_of_def
        map_replicate_const)

lemma combine_after_values_nth:
  "i < len \<Longrightarrow> combine_values (combine_after len evs) ! i = slot_of (latest i evs)"
  by (simp add: combine_after_def)

lemma slot_of_Marker: "slot_of v = Marker \<longleftrightarrow> v = None"
  by (cases v) (simp_all add: slot_of_def)

lemma combine_next_after:
  assumes "i < len"
  shows "combine_next len obs i d (combine_after len evs) =
           (if all_produced len (evs @ [(i, Next d)])
            then invoke obs (Next (map Value (snapshot len (evs @ [(i, Next d)])))) else [],
            combine_after len (evs @ [(i, Next d)]))"
proof -
  let ?evs' = "evs @ [(i, Next d)]"
  define V where "V = map (\<lambda>j. slot_of (latest j evs)) [0..<len]"
  define V' where "V' = map (\<lambda>j. slot_of (latest j ?evs')) [0..<len]"
  define N where "N = length (filter (\<lambda>j. latest j evs \<noteq> None) [0..<len])"
  define N' where "N' = length (filter (\<lambda>j. latest j ?evs' \<noteq> None) [0..<len])"
  define C where "C = length (filter (\<lambda>ev. snd ev = Complete) evs)"
  have after: "combine_after len evs =
      \<lparr>combine_values = V, combine_numData = N, combine_numCompleted = C\<rparr>"
    by (simp only: combine_after_def V_def N_def C_def)
  have "length (filter (\<lambda>ev. snd ev = Complete) ?evs') = C"
    by (simp add: C_def)
  then have after': "combine_after len ?evs' =
      \<lparr>combine_values = V', combine_numData = N', combine_numCompleted = C\<rparr>"
    by (simp only: combine_after_def V'_def N'_def)
  have vals: "V[i := Value d] = V'"
    unfolding V_def V'_def using assms
    by (intro nth_equalityI) (auto simp add: latest_snoc_Next slot_of_def nth_list_update)
  have p: "(\<lambda>j. latest j ?evs' \<noteq> None) = (\<lambda>j. j = i \<or> latest j evs \<noteq> None)"
    by (auto simp add: latest_snoc_Next fun_eq_iff)
  have num: "N' = N + (if latest i evs \<noteq> None then 0 else 1)"
    unfolding N_def N'_def p by (rule count_with_new[OF assms])
  have m: "V ! i = Marker \<longleftrightarrow> latest i evs = None"
    unfolding V_def using assms by (simp add: slot_of_Marker)
  have nd: "N' = len \<longleftrightarrow> all_produced len ?evs'"
    unfolding N'_def all_produced_def by (rule all_counted)
  have snap: "V' = map Value (snapshot len ?evs')" if "all_produced len ?evs'"
    using that unfolding V'_def
    by (auto simp add: snapshot_def all_produced_def list_all_iff slot_of_def)
  show ?thesis
  proof (cases "latest i evs = None")
    case True
    with m num have "V ! i = Marker" and "N' = N + 1" by simp_all
    then show ?thesis
      using nd snap unfolding after after'[symmetric]
      by (simp add: combine_next_def Let_def vals after')
  next
    case False
    with m num have "V ! i \<noteq> Marker" and "N' = N" by simp_all
    then show ?thesis
      using nd snap unfolding after after'[symmetric]
      by (simp add: combine_next_def Let_def vals after')
  qed
qed


lemma combine_after_snoc_Error:
  "combine_after len (evs @ [(i, Error e)]) = combine_after len evs"
  by (simp add: combine_after_def latest_snoc_Error)

lemma combine_after_snoc_Complete:
  "combine_after len (evs @ [(i, Complete)]) =
     (combine_after len evs)
       \<lparr>combine_numCompleted := combine_numCompleted (combine_after len evs) + 1\<rparr>"
  by (simp add: combine_after_def latest_snoc_Complete)

lemma combine_step_after:
  assumes "fst ev < len"
  shows "snd (combine_step len obs ev (combine_after len seen)) = combine_after len (seen @ [ev])
       \<and> tuples (fst (combine_step len obs ev (combine_after len seen))) =
           map (map Value)
             (case snd ev of
                Next d \<Rightarrow> (if all_produced len (seen @ [ev]) then [snapshot len (seen @ [ev])] else [])
              | _ \<Rightarrow> [])"
proof -
  obtain i c where ev: "ev = (i, c)" by (cases ev)
  with assms have i: "i < len" by simp
  show ?thesis
  proof (cases c)
    case (Next d)
    with ev show ?thesis
      by (simp add: combine_step_def tuples_def combine_next_after[OF i])
  next
    case (Error e)
    with ev show ?thesis
      by (simp add: combine_step_def tuples_def combine_after_snoc_Error)
  next
    case Complete
    with ev show ?thesis
      by (simp add: combine_step_def combine_complete_def Let_def tuples_def
            combine_after_snoc_Complete)
  qed
qed

lemma combine_run_after:
  "well_indexed len evs \<Longrightarrow>
   tuples (fst (run (combine_step len obs) evs (combine_after len seen))) =
     map (map Value) (emissions_spec len seen evs)"
proof (induction evs arbitrary: seen)
  case Nil
  then show ?case by (simp add: tuples_simps)
next
  case (Cons ev evs)
  from Cons.prems have ev: "fst ev < len" and rest: "well_indexed len evs"
    by (simp_all add: well_indexed_def)
  note s = combine_step_after[OF ev, of obs seen]
  have "tuples (fst (run (combine_step len obs) (ev # evs) (combine_after len seen))) =
        tuples (fst (combine_step len obs ev (combine_after len seen))) @
        tuples (fst (run (combine_step len obs) evs (combine_after len (seen @ [ev]))))"
    using s by (simp add: run_fst_Cons tuples_simps del: run.simps(2))
  also have "\<dots> = map (map Value) (emissions_spec len seen (ev # evs))"
    using s Cons.IH[OF rest, of "seen @ [ev]"] by simp
  finally show ?case .
qed

lemma emissions_spec_length:
  "t \<in> set (emissions_spec len seen evs) \<Longrightarrow> length t = len"
  by (induction evs arbitrary: seen) (auto simp add: snapshot_def split: call.splits if_splits)

text \<open>
  C2: for any number of inputs and any sequence of their calls, the tuples the
  downstream observer receives from \<open>combine\<close> are exactly those of \<open>combine_spec\<close>:
  a value of an input triggers an emission only once every input has produced a
  value, and the emission is the tuple of the latest values of all inputs (the slot of
  the triggering input holds the new value, the others what they held). Every tuple
  has one slot per input and none holds the marker, whatever the values are: an input
  that sends the absent value (\<open>None\<close> below) has produced a value.
\<close>

theorem combine_emits_latest_tuples:
  assumes "well_indexed len evs"
  shows "tuples (combine len obs evs) = map (map Value) (combine_spec len evs)
       \<and> list_all (\<lambda>t. length t = len \<and> Marker \<notin> set t) (tuples (combine len obs evs))
       \<and> latest j (evs @ [(i, Next d)]) = (if j = i then Some d else latest j evs)
       \<and> combine 2 obs [(0, Next None), (1, Next None)] = [Next [Value None, Value None]]"
proof (intro conjI)
  show a: "tuples (combine len obs evs) = map (map Value) (combine_spec len evs)"
    using combine_run_after[OF assms, of obs "[]"]
    by (simp add: combine_def combine_spec_def combine_after_Nil)
  show "list_all (\<lambda>t. length t = len \<and> Marker \<notin> set t) (tuples (combine len obs evs))"
    unfolding a using emissions_spec_length[of _ len "[]" evs]
    by (auto simp add: list_all_iff combine_spec_def)
  show "latest j (evs @ [(i, Next d)]) = (if j = i then Some d else latest j evs)"
    by (rule latest_snoc_Next)
  show "combine 2 obs [(0, Next None), (1, Next None)] = [Next [Value None, Value None]]"
    by (simp add: combine_def combine_step_def combine_subscribe_def combine_next_def
          numeral_2_eq_2)
qed

theorem combine_emits_latest_tuples_witness:
  "tuples (combine 2 \<lparr>has_error = True, has_complete = True\<rparr>
      [(0, Next (Inl 10)), (0, Next (Inl 20)), (1, Next (Inr ''x'')) :: nat \<times> (int + string, string) call])
     = [[Value (Inl 20), Value (Inr ''x'')]]
   \<and> tuples (combine 2 \<lparr>has_error = True, has_complete = True\<rparr>
      [(0, Next (Inl 10)), (1, Next (Inr ''x'')), (0, Next (Inl 20)) :: nat \<times> (int + string, string) call])
     = [[Value (Inl 10), Value (Inr ''x'')], [Value (Inl 20), Value (Inr ''x'')]]"
proof -
  let ?obs = "\<lparr>has_error = True, has_complete = True\<rparr>"
  let ?e1 = "[(0, Next (Inl 10)), (0, Next (Inl 20)), (1, Next (Inr ''x'')) :: nat \<times> (int + string, string) call]"
  let ?e2 = "[(0, Next (Inl 10)), (1, Next (Inr ''x'')), (0, Next (Inl 20)) :: nat \<times> (int + string, string) call]"
  have w1: "well_indexed 2 ?e1" and w2: "well_indexed 2 ?e2"
    by (simp_all add: well_indexed_def)
  have s1: "combine_spec 2 ?e1 = [[Inl 20, Inr ''x'']]"
    by code_simp
  have s2: "combine_spec 2 ?e2 = [[Inl 10, Inr ''x''], [Inl 20, Inr ''x'']]"
    by code_simp
  from combine_emits_latest_tuples[OF w1, of ?obs, THEN conjunct1] s1
  have a: "tuples (combine 2 ?obs ?e1) = [[Value (Inl 20), Value (Inr ''x'')]]"
    by simp
  from combine_emits_latest_tuples[OF w2, of ?obs, THEN conjunct1] s2
  have b: "tuples (combine 2 ?obs ?e2) =
      [[Value (Inl 10), Value (Inr ''x'')], [Value (Inl 20), Value (Inr ''x'')]]"
    by simp
  from a b show ?thesis by blast
qed

end
